theory Spec2Isabelle
  imports Complex_Main "HOL-Library.Multiset"
begin

section \<open>Python strings and lists\<close>

text \<open>
  Strings are lists of 8-bit characters. \<open>str.lstrip()\<close> with no argument removes the
  leading characters for which \<open>str.isspace\<close> holds; on the ASCII range these are
  tab, line feed, vertical tab, form feed, carriage return, the four separators
  0x1C..0x1F and the space.
\<close>

definition isspace :: "char \<Rightarrow> bool" where
  "isspace c = (c \<in> set [CHR 0x09, CHR 0x0A, CHR 0x0B, CHR 0x0C, CHR 0x0D,
                          CHR 0x1C, CHR 0x1D, CHR 0x1E, CHR 0x1F, CHR '' ''])"

definition lstrip :: "string \<Rightarrow> string" where
  "lstrip s = dropWhile isspace s"

text \<open>
  \<open>s.split(sep)\<close> for a one-character separator: the segments between the occurrences
  of \<open>sep\<close>; the result always has at least one segment.
\<close>

fun split :: "char \<Rightarrow> string \<Rightarrow> string list" where
  "split sep [] = [[]]"
| "split sep (c # cs) =
     (if c = sep then [] # split sep cs
      else (case split sep cs of
              [] \<Rightarrow> [[c]]
            | seg # segs \<Rightarrow> (c # seg) # segs))"

text \<open>\<open>sep.join(xs)\<close>.\<close>

fun join :: "string \<Rightarrow> string list \<Rightarrow> string" where
  "join sep [] = []"
| "join sep [x] = x"
| "join sep (x # y # ys) = x @ sep @ join sep (y # ys)"

text \<open>The exceptions the modelled code can raise.\<close>

datatype error = ValueError | KeyError | ZeroDivisionError

text \<open>\<open>xs.index(x)\<close>: the first position of \<open>x\<close>, or \<open>ValueError\<close>.\<close>

fun index :: "'a list \<Rightarrow> 'a \<Rightarrow> error + nat" where
  "index [] x = Inl ValueError"
| "index (y # ys) x =
     (if y = x then Inr 0
      else (case index ys x of Inl e \<Rightarrow> Inl e | Inr i \<Rightarrow> Inr (Suc i)))"

text \<open>The unpackings \<open>a, *_ = xs\<close> and \<open>a, b, *_ = xs\<close>; too few values raise \<open>ValueError\<close>.\<close>

fun unpack1 :: "'a list \<Rightarrow> error + 'a" where
  "unpack1 (a # rest) = Inr a"
| "unpack1 [] = Inl ValueError"

fun unpack2 :: "'a list \<Rightarrow> error + 'a \<times> 'a" where
  "unpack2 (a # b # rest) = Inr (a, b)"
| "unpack2 xs = Inl ValueError"

text \<open>
  The slices \<open>xs[:n]\<close> and \<open>xs[-n:]\<close> for any integer \<open>n\<close>. A negative bound counts
  from the end, and \<open>-0\<close> is \<open>0\<close>, so \<open>xs[-0:]\<close> is the whole list.
\<close>

definition slice_to :: "'a list \<Rightarrow> int \<Rightarrow> 'a list" where
  "slice_to xs n =
     (if n < 0 then take (nat (int (length xs) + n)) xs else take (nat n) xs)"

definition slice_last :: "'a list \<Rightarrow> int \<Rightarrow> 'a list" where
  "slice_last xs n =
     (if - n < 0 then drop (nat (int (length xs) - n)) xs else drop (nat (- n)) xs)"

section \<open>The completion client of \<open>gql/model.py\<close>\<close>

text \<open>
  \<open>GPT3\<close> holds the persistent store \<open>db\<close> (a \<open>shelve\<close>, prompt to completion). The
  field \<open>calls\<close> is ghost state: the number of requests sent to the external service so
  far. The service is a parameter \<open>create\<close>: \<open>create k prompt\<close> is the text of the first
  choice answered to request number \<open>k\<close>.
\<close>

record GPT3 =
  db :: "string \<rightharpoonup> string"
  calls :: nat

text \<open>
  The \<open>while True\<close> loop of \<open>GPT3.__call__\<close>: one request per iteration; a
  left-stripped completion holding a full stop is stored under the prompt and returned,
  any other is dropped and the request is sent again. \<open>None\<close> is the loop that never
  ends.
\<close>

partial_function (option) GPT3_live ::
  "(nat \<Rightarrow> string \<Rightarrow> string) \<Rightarrow> GPT3 \<Rightarrow> string \<Rightarrow> (string \<times> GPT3) option" where
  "GPT3_live create g prompt =
     (let completion = lstrip (create (calls g) prompt);
          g' = g\<lparr>calls := Suc (calls g)\<rparr>
      in if CHR ''.'' \<in> set completion
         then Some (completion, g'\<lparr>db := (db g')(prompt \<mapsto> completion)\<rparr>)
         else GPT3_live create g' prompt)"

text \<open>\<open>GPT3.__call__\<close>: a stored prompt is answered from the store, without a request.\<close>

definition GPT3_call ::
  "(nat \<Rightarrow> string \<Rightarrow> string) \<Rightarrow> GPT3 \<Rightarrow> string \<Rightarrow> (string \<times> GPT3) option" where
  "GPT3_call create g prompt =
     (case db g prompt of
        Some completion \<Rightarrow> Some (completion, g)
      | None \<Rightarrow> GPT3_live create g prompt)"

text \<open>The invariant of the store: every stored completion holds a full stop.\<close>

definition db_dotted :: "GPT3 \<Rightarrow> bool" where
  "db_dotted g = (\<forall>p c. db g p = Some c \<longrightarrow> CHR ''.'' \<in> set c)"

subsection \<open>Example inputs\<close>

text \<open>A service whose first answer has no full stop and whose later answers have one.\<close>

definition create_retry :: "nat \<Rightarrow> string \<Rightarrow> string" where
  "create_retry k prompt = (if k = 0 then ''abc'' else '' d.e'')"

definition gpt3_fresh :: GPT3 where
  "gpt3_fresh = \<lparr>db = Map.empty, calls = 0\<rparr>"

definition gpt3_after :: GPT3 where
  "gpt3_after = \<lparr>db = [''p'' \<mapsto> ''d.e''], calls = 2\<rparr>"

section \<open>The training loop of \<open>gqn/train.py\<close>\<close>

record TimeStep =
  state :: int
  action :: int
  reward :: real
  next_state :: "int option"













fun push_suffixes :: "'a list list \<Rightarrow> 'a list \<Rightarrow> 'a list list" where
  "push_suffixes buf [] = buf"
| "push_suffixes buf (head # rest) = push_suffixes (buf @ [head # rest]) rest"

definition store_episode :: "bool \<Rightarrow> bool \<Rightarrow> int \<Rightarrow> 'a list list \<Rightarrow> 'a list \<Rightarrow> 'a list list" where
  "store_episode eval out max_traj buf traj =
     (if \<not> eval
      then (let traj' = slice_last traj max_traj
            in if \<not> out then push_suffixes buf traj' else buf)
      else buf)"








subsection \<open>Example inputs\<close>




section \<open>The trajectory codec of \<open>gql/model.py\<close>\<close>

text \<open>
  The environment of \<open>gql\<close> (\<open>env.py\<close>) is not among the sources: its renderers and its
  \<open>quantify\<close> are the fields of a record, and the constants \<open>ACTIONS\<close> and \<open>REWARDS\<close>
  are parameters of the functions that read them.
\<close>

record Env =
  state_str :: "int \<Rightarrow> string"
  action_str :: "int \<Rightarrow> string"
  reward_str :: "real \<Rightarrow> int option \<Rightarrow> string"
  quantify :: "string \<Rightarrow> real \<Rightarrow> real"


record Prompt =
  prompt_state :: int
  prompt_action :: int
  prompt_value :: string

definition Prompt_make :: "int \<Rightarrow> int \<Rightarrow> string \<Rightarrow> Prompt" where
  "Prompt_make s a v = \<lparr>prompt_state = s, prompt_action = a, prompt_value = lstrip v\<rparr>"

definition Prompt_to_string :: "Env \<Rightarrow> Prompt \<Rightarrow> string" where
  "Prompt_to_string env p =
     state_str env (prompt_state p) @ '' '' @ action_str env (prompt_action p) @ '' ''
       @ prompt_value p"

definition Prompt_to_value_quantity :: "Env \<Rightarrow> Prompt \<Rightarrow> real \<Rightarrow> real" where
  "Prompt_to_value_quantity env p g = quantify env (Prompt_to_string env p) g"

text \<open>The module-level \<open>to_string\<close>, the renderer of a trajectory.\<close>

fun to_string :: "Env \<Rightarrow> TimeStep list \<Rightarrow> string" where
  "to_string env [] = ''''"
| "to_string env (head # rest) =
     (let reward_text = (if next_state head = None
                         then reward_str env (reward head) None else '''');
          tail_trajectory = to_string env rest;
          sep = (if tail_trajectory \<noteq> [] \<and> reward_text \<noteq> [] then '' '' else '''')
      in Prompt_to_string env
           (Prompt_make (state head) (action head) (reward_text @ sep @ tail_trajectory)))"


section \<open>\<open>Env.quantify\<close> of \<open>gqn/base_env.py\<close>\<close>

text \<open>
  \<open>re.findall(r"assert reward == (\d)", prompt)\<close>: the text is scanned from the left;
  where the pattern matches, the digit is collected and the scan goes on after the
  match, elsewhere it moves on by one character. \<open>quantify\<close> adds the digits; it has no
  \<open>gamma\<close> parameter. The class \<open>\d\<close> is read on the ASCII digits.
\<close>

definition reward_pattern :: string where
  "reward_pattern = ''assert reward == ''"

definition isdigit :: "char \<Rightarrow> bool" where
  "isdigit c = (48 \<le> (of_char c :: nat) \<and> (of_char c :: nat) \<le> 57)"

definition matches :: "string \<Rightarrow> bool" where
  "matches s = (take 17 s = reward_pattern \<and> 17 < length s \<and> isdigit (s ! 17))"

fun findall :: "string \<Rightarrow> char list" where
  "findall [] = []"
| "findall (c # cs) =
     (if matches (c # cs) then (c # cs) ! 17 # findall (drop 18 (c # cs))
      else findall cs)"

definition float_of_digit :: "char \<Rightarrow> real" where
  "float_of_digit c = real ((of_char c :: nat) - 48)"

definition Env_quantify :: "string \<Rightarrow> real" where
  "Env_quantify prompt = sum_list (map float_of_digit (findall prompt))"

subsection \<open>Example inputs\<close>


text \<open>
  An environment that renders a reward as \<open>assert reward == \<close> followed by the number as
  Python prints a float.
\<close>

definition env_assert :: Env where
  "env_assert = \<lparr>state_str = (\<lambda>s. ''s''), action_str = (\<lambda>a. ''a''),
     reward_str = (\<lambda>r n. if r = 1 / 2 then ''assert reward == 0.5''
                           else ''assert reward == 1.0''),
     quantify = (\<lambda>p g. Env_quantify p)\<rparr>"

definition step_on :: TimeStep where
  "step_on = \<lparr>state = 0, action = 0, reward = 0, next_state = Some 1\<rparr>"

definition step_win :: TimeStep where
  "step_win = \<lparr>state = 1, action = 0, reward = 1, next_state = None\<rparr>"

definition step_half :: TimeStep where
  "step_half = \<lparr>state = 1, action = 0, reward = 1 / 2, next_state = None\<rparr>"

section \<open>The agents of \<open>gql/model.py\<close>\<close>

text \<open>
  \<open>Model\<close> with the fields the agents read. Its \<open>gpt3\<close> and \<open>rng\<close> are parameters of
  the functions below, each indexed by a counter \<open>k\<close> of the calls made so far:
  \<open>gpt3 k prompt\<close> is the completion that call \<open>k\<close> of the client returns for the prompt
  (any sequence of completions is some \<open>gpt3\<close>), \<open>perm k n\<close> is the order in which shuffle
  \<open>k\<close> leaves the positions of a list of length \<open>n\<close>, and \<open>random k\<close> is the draw of
  \<open>rng.random()\<close>. The fields \<open>gamma\<close> and \<open>max_steps\<close> of \<open>Q\<close> carry the prefix \<open>q_\<close>.
\<close>

record Model =
  buffer :: "Prompt list"
  env :: Env
  failure_threshold :: real
  prompt_size :: int

record Q = Model +
  q_gamma :: real
  q_max_steps :: int

definition shuffle :: "(nat \<Rightarrow> nat \<Rightarrow> nat list) \<Rightarrow> nat \<Rightarrow> 'a list \<Rightarrow> 'a list" where
  "shuffle perm k xs = map ((!) xs) (perm k (length xs))"

definition sample :: "(nat \<Rightarrow> nat \<Rightarrow> nat list) \<Rightarrow> nat \<Rightarrow> 'a Model_scheme \<Rightarrow> string list" where
  "sample perm k m =
     (let prompts = map (Prompt_to_string (env m)) (buffer m);
          prompts = shuffle perm k prompts
      in slice_to prompts (prompt_size m))"

definition sample_best :: "(nat \<Rightarrow> nat \<Rightarrow> nat list) \<Rightarrow> nat \<Rightarrow> 'a Model_scheme \<Rightarrow> string list" where
  "sample_best perm k m =
     (let success_prompts =
            filter (\<lambda>p. Prompt_to_value_quantity (env m) p 1 > failure_threshold m) (buffer m);
          success_prompts = shuffle perm k success_prompts
      in slice_to (map (Prompt_to_string (env m)) success_prompts) (prompt_size m))"

definition reformat :: "string \<Rightarrow> string" where
  "reformat completion = lstrip completion @ ''.''"

definition newline :: string where
  "newline = [CHR 0x0A]"

text \<open>
  The loop of \<open>Pi._act\<close>, from call \<open>k\<close> on: the result is the action and the counter
  after the last call. \<open>None\<close> is the loop that never ends.
\<close>

partial_function (option) Pi_act_loop ::
  "string list \<Rightarrow> (nat \<Rightarrow> nat \<Rightarrow> nat list) \<Rightarrow> (nat \<Rightarrow> string \<Rightarrow> string) \<Rightarrow> Model
     \<Rightarrow> string \<Rightarrow> nat \<Rightarrow> (error + nat \<times> nat) option" where
  "Pi_act_loop ACTIONS perm gpt3 m s k =
     (let trajectories = sample_best perm k m;
          prompt = join newline (trajectories @ [s]);
          completion = lstrip (gpt3 k prompt)
      in case unpack1 (split CHR ''.'' completion) of
           Inl e \<Rightarrow> Some (Inl e)
         | Inr maybe_action \<Rightarrow>
             (case index ACTIONS (maybe_action @ ''.'') of
                Inr a \<Rightarrow> Some (Inr (a, Suc k))
              | Inl e \<Rightarrow> Pi_act_loop ACTIONS perm gpt3 m s (Suc k)))"

definition Pi_act ::
  "string list \<Rightarrow> (nat \<Rightarrow> nat \<Rightarrow> nat list) \<Rightarrow> (nat \<Rightarrow> string \<Rightarrow> string) \<Rightarrow> Model
     \<Rightarrow> int \<Rightarrow> nat \<Rightarrow> (error + nat \<times> nat) option" where
  "Pi_act ACTIONS perm gpt3 m st k =
     Pi_act_loop ACTIONS perm gpt3 m (state_str (env m) st) k"

text \<open>
  The candidate of call \<open>i\<close> in the words of the claim: the first segment of the
  completion that a full stop ends, with the full stop, for the prompt sampled at that
  call.
\<close>

definition candidate ::
  "(nat \<Rightarrow> nat \<Rightarrow> nat list) \<Rightarrow> (nat \<Rightarrow> string \<Rightarrow> string) \<Rightarrow> Model \<Rightarrow> string \<Rightarrow> nat \<Rightarrow> string" where
  "candidate perm gpt3 m s i =
     takeWhile (\<lambda>c. c \<noteq> CHR ''.'')
       (lstrip (gpt3 i (join newline (sample_best perm i m @ [s])))) @ ''.''"

text \<open>
  The loop of \<open>Q.value\<close>. \<open>REWARDS\<close> lists the items of the dictionary; \<open>REWARDS[0.0]\<close>
  raises \<open>KeyError\<close> when the key is absent.
\<close>

partial_function (option) Q_value_loop ::
  "(real \<times> string) list \<Rightarrow> (nat \<Rightarrow> nat \<Rightarrow> nat list) \<Rightarrow> (nat \<Rightarrow> string \<Rightarrow> string) \<Rightarrow> Q
     \<Rightarrow> string \<Rightarrow> int \<Rightarrow> string list \<Rightarrow> nat \<Rightarrow> (error + string \<times> nat) option" where
  "Q_value_loop REWARDS perm gpt3 q state_or_reward t completions k =
     (if state_or_reward \<in> set (map snd REWARDS)
      then Some (Inr (join '' '' completions, k))
      else
        (let trajectories = sample_best perm k q;
             new_prompt = join newline (trajectories @ [state_or_reward]);
             completion = lstrip (gpt3 k new_prompt)
         in case unpack2 (split CHR ''.'' completion) of
              Inl e \<Rightarrow> Some (Inl e)
            | Inr (a, sor) \<Rightarrow>
                (case (if t = q_max_steps q
                       then (case map_of REWARDS 0 of
                               None \<Rightarrow> Inl KeyError
                             | Some zero \<Rightarrow> Inr zero)
                       else Inr (reformat sor)) of
                   Inl e \<Rightarrow> Some (Inl e)
                 | Inr sor' \<Rightarrow>
                     Q_value_loop REWARDS perm gpt3 q sor' (t + 1)
                       (completions @ [reformat a, sor']) (Suc k))))"

definition Q_value ::
  "(real \<times> string) list \<Rightarrow> (nat \<Rightarrow> nat \<Rightarrow> nat list) \<Rightarrow> (nat \<Rightarrow> string \<Rightarrow> string) \<Rightarrow> Q
     \<Rightarrow> int \<Rightarrow> int \<Rightarrow> nat \<Rightarrow> (error + string \<times> nat) option" where
  "Q_value REWARDS perm gpt3 q st a k =
     (let s = state_str (env q) st;
          a' = action_str (env q) a;
          trajectories = sample perm k q;
          new_prompt = join newline (trajectories @ [s @ '' '' @ a'])
      in case unpack2 (split CHR ''.'' (lstrip (gpt3 k new_prompt))) of
           Inl e \<Rightarrow> Some (Inl e)
         | Inr (sor, a'') \<Rightarrow>
             Q_value_loop REWARDS perm gpt3 q (reformat sor) 1 [reformat sor] (Suc k))"







subsection \<open>Example inputs\<close>

text \<open>
  An environment whose \<open>quantify\<close> discounts: a reward of 1 one step ahead against a
  reward of 2 three steps ahead.
\<close>

definition env_discount :: Env where
  "env_discount = \<lparr>state_str = (\<lambda>s. ''s.''), action_str = (\<lambda>a. ''a.''),
     reward_str = (\<lambda>r n. ''near.''),
     quantify = (\<lambda>p g. if p = ''near.'' then g
                        else if p = ''s1. a1. far.'' then 2 * g ^ 3 else 0)\<rparr>"

definition rewards_ex :: "(real \<times> string) list" where
  "rewards_ex = [(0, ''none.''), (1, ''near.''), (2, ''far.'')]"

definition actions_ex :: "string list" where
  "actions_ex = [''Left.'', ''Right.'']"

definition perm_id :: "nat \<Rightarrow> nat \<Rightarrow> nat list" where
  "perm_id k n = [0..<n]"


text \<open>A Q agent configured with \<open>gamma\<close> one half and a rollout depth of 3, or of 0.\<close>

definition q_half :: Q where
  "q_half = \<lparr>buffer = [], env = env_discount, failure_threshold = 0, prompt_size = 0,
     q_gamma = 1 / 2, q_max_steps = 3\<rparr>"


definition pi_ex :: Model where
  "pi_ex = \<lparr>buffer = [], env = env_discount, failure_threshold = 0, prompt_size = 0\<rparr>"

text \<open>
  Completion clients: one rolls action 0 out to \<open>near.\<close> and action 1 out to \<open>far.\<close>
  after one more step; one never names a reward; one names an action at its second call.
\<close>

definition gpt3_rollout :: "nat \<Rightarrow> string \<Rightarrow> string" where
  "gpt3_rollout k prompt =
     (if k = 0 then ''near. a.'' else if k = 1 then ''s1. a.'' else '' a1. far.'')"


definition gpt3_second :: "nat \<Rightarrow> string \<Rightarrow> string" where
  "gpt3_second k prompt = (if k = 0 then ''Up. s.'' else '' Right. s.'')"

section \<open>Properties of the completion client\<close>

lemma GPT3_live_post:
  assumes "GPT3_live create g prompt = Some y"
  shows "\<exists>j. calls g \<le> j \<and> calls (snd y) = Suc j
        \<and> fst y = lstrip (create j prompt)
        \<and> CHR ''.'' \<in> set (fst y)
        \<and> (\<forall>i. calls g \<le> i \<and> i < j \<longrightarrow> CHR ''.'' \<notin> set (lstrip (create i prompt)))
        \<and> db (snd y) = (db g)(prompt \<mapsto> fst y)"
proof -
  define P where "P = (\<lambda>(create :: nat \<Rightarrow> string \<Rightarrow> string) (g :: GPT3) prompt
      (y :: string \<times> GPT3).
     \<exists>j. calls g \<le> j \<and> calls (snd y) = Suc j
        \<and> fst y = lstrip (create j prompt)
        \<and> CHR ''.'' \<in> set (fst y)
        \<and> (\<forall>i. calls g \<le> i \<and> i < j \<longrightarrow> CHR ''.'' \<notin> set (lstrip (create i prompt)))
        \<and> db (snd y) = (db g)(prompt \<mapsto> fst y))"
  have "P create g prompt y"
  proof (rule GPT3_live.raw_induct [where P = P, OF _ assms])
    fix live and create :: "nat \<Rightarrow> string \<Rightarrow> string" and g :: GPT3 and prompt
      and y :: "string \<times> GPT3"
    assume IH: "\<And>create g prompt y. live create g prompt = Some y \<Longrightarrow> P create g prompt y"
      and body: "(let completion = lstrip (create (calls g) prompt);
                      g' = g\<lparr>calls := Suc (calls g)\<rparr>
                  in if CHR ''.'' \<in> set completion
                     then Some (completion, g'\<lparr>db := (db g')(prompt \<mapsto> completion)\<rparr>)
                     else live create g' prompt) = Some y"
    let ?c = "lstrip (create (calls g) prompt)"
    show "P create g prompt y"
    proof (cases "CHR ''.'' \<in> set ?c")
      case True
      with body have y: "y = (?c, g\<lparr>calls := Suc (calls g), db := (db g)(prompt \<mapsto> ?c)\<rparr>)"
        by (simp add: Let_def)
      show ?thesis
        unfolding P_def by (rule exI [of _ "calls g"]) (use True y in auto)
    next
      case False
      with body have "live create (g\<lparr>calls := Suc (calls g)\<rparr>) prompt = Some y"
        by (simp add: Let_def)
      from IH [OF this] obtain j where j:
        "Suc (calls g) \<le> j" "calls (snd y) = Suc j" "fst y = lstrip (create j prompt)"
        "CHR ''.'' \<in> set (fst y)"
        "\<forall>i. Suc (calls g) \<le> i \<and> i < j \<longrightarrow> CHR ''.'' \<notin> set (lstrip (create i prompt))"
        "db (snd y) = (db g)(prompt \<mapsto> fst y)"
        unfolding P_def by auto
      have "\<forall>i. calls g \<le> i \<and> i < j \<longrightarrow> CHR ''.'' \<notin> set (lstrip (create i prompt))"
      proof (intro allI impI)
        fix i assume i: "calls g \<le> i \<and> i < j"
        show "CHR ''.'' \<notin> set (lstrip (create i prompt))"
        proof (cases "i = calls g")
          case True
          with False show ?thesis by simp
        next
          case False
          with i have "Suc (calls g) \<le> i \<and> i < j" by simp
          with j(5) show ?thesis by blast
        qed
      qed
      with j show ?thesis
        unfolding P_def by (intro exI [of _ j]) simp
    qed
  qed
  then show ?thesis by (simp add: P_def)
qed

lemma GPT3_live_returns:
  "CHR ''.'' \<in> set (lstrip (create j prompt)) \<Longrightarrow> calls g \<le> j \<Longrightarrow>
     \<exists>y. GPT3_live create g prompt = Some y"
proof (induction "j - calls g" arbitrary: g)
  case 0
  then have "calls g = j" by simp
  with 0(2) show ?case
    by (subst GPT3_live.simps) (simp add: Let_def)
next
  case (Suc d)
  show ?case
  proof (cases "CHR ''.'' \<in> set (lstrip (create (calls g) prompt))")
    case True
    then show ?thesis
      by (subst GPT3_live.simps) (simp add: Let_def)
  next
    case False
    from Suc(2) have "d = j - calls (g\<lparr>calls := Suc (calls g)\<rparr>)"
      and "calls (g\<lparr>calls := Suc (calls g)\<rparr>) \<le> j"
      by simp_all
    with Suc(1) [of "g\<lparr>calls := Suc (calls g)\<rparr>"] Suc(3)
    have "\<exists>y. GPT3_live create (g\<lparr>calls := Suc (calls g)\<rparr>) prompt = Some y"
      by blast
    with False show ?thesis
      by (subst GPT3_live.simps) (simp add: Let_def)
  qed
qed

lemma GPT3_call_fresh:
  "GPT3_call create_retry gpt3_fresh ''p'' = Some (''d.e'', gpt3_after)"
  by (simp add: GPT3_call_def GPT3_live.simps create_retry_def gpt3_fresh_def
      gpt3_after_def lstrip_def isspace_def Let_def)

lemma GPT3_call_after:
  "GPT3_call create_retry gpt3_after ''p'' = Some (''d.e'', gpt3_after)"
  by (simp add: GPT3_call_def gpt3_after_def)

lemma db_dotted_fresh: "db_dotted gpt3_fresh"
  by (simp add: db_dotted_def gpt3_fresh_def)

text \<open>
  C10. Starting from a store in which every completion holds a full stop, a call of
  \<open>GPT3.__call__\<close> that returns gives a completion that holds a full stop and leaves
  such a store. On a miss the completion is the first answer of the service, from the
  current request on, whose stripped text holds a full stop: every earlier answer was
  neither returned nor stored, the request was sent again after each, and the store
  changes at the prompt only. As soon as some later answer holds a full stop, the call
  returns.
\<close>

theorem GPT3_call_dotted:
  assumes "db_dotted g"
  shows "(GPT3_call create g prompt = Some (c, g') \<longrightarrow>
            CHR ''.'' \<in> set c \<and> db_dotted g'
            \<and> (db g prompt = None \<longrightarrow>
                 (\<exists>j. calls g \<le> j \<and> calls g' = Suc j \<and> c = lstrip (create j prompt)
                    \<and> (\<forall>i. calls g \<le> i \<and> i < j \<longrightarrow>
                           CHR ''.'' \<notin> set (lstrip (create i prompt)))
                    \<and> db g' = (db g)(prompt \<mapsto> c))))
       \<and> ((\<exists>j. calls g \<le> j \<and> CHR ''.'' \<in> set (lstrip (create j prompt))) \<longrightarrow>
            (\<exists>y. GPT3_call create g prompt = Some y))"
proof (intro conjI impI)
  assume r: "GPT3_call create g prompt = Some (c, g')"
  show "CHR ''.'' \<in> set c"
  proof (cases "db g prompt")
    case None
    with r have "GPT3_live create g prompt = Some (c, g')" by (simp add: GPT3_call_def)
    from GPT3_live_post [OF this] show ?thesis by auto
  next
    case (Some c')
    with r have "c' = c" by (simp add: GPT3_call_def)
    with Some assms show ?thesis by (auto simp: db_dotted_def)
  qed
  show "db_dotted g'"
  proof (cases "db g prompt")
    case None
    with r have "GPT3_live create g prompt = Some (c, g')" by (simp add: GPT3_call_def)
    from GPT3_live_post [OF this] have "CHR ''.'' \<in> set c" "db g' = (db g)(prompt \<mapsto> c)"
      by auto
    with assms show ?thesis by (auto simp: db_dotted_def)
  next
    case (Some c')
    with r have "g' = g" by (simp add: GPT3_call_def)
    with assms show ?thesis by simp
  qed
next
  assume r: "GPT3_call create g prompt = Some (c, g')" and miss: "db g prompt = None"
  then have "GPT3_live create g prompt = Some (c, g')" by (simp add: GPT3_call_def)
  from GPT3_live_post [OF this]
  show "\<exists>j. calls g \<le> j \<and> calls g' = Suc j \<and> c = lstrip (create j prompt)
          \<and> (\<forall>i. calls g \<le> i \<and> i < j \<longrightarrow> CHR ''.'' \<notin> set (lstrip (create i prompt)))
          \<and> db g' = (db g)(prompt \<mapsto> c)"
    by auto
next
  assume "\<exists>j. calls g \<le> j \<and> CHR ''.'' \<in> set (lstrip (create j prompt))"
  then obtain j where "calls g \<le> j" "CHR ''.'' \<in> set (lstrip (create j prompt))" by blast
  then have "\<exists>y. GPT3_live create g prompt = Some y"
    by (rule_tac GPT3_live_returns)
  then show "\<exists>y. GPT3_call create g prompt = Some y"
    by (cases "db g prompt") (simp_all add: GPT3_call_def)
qed

theorem GPT3_call_dotted_witness:
  "db_dotted gpt3_fresh
   \<and> GPT3_call create_retry gpt3_fresh ''p'' = Some (''d.e'', gpt3_after)
   \<and> CHR ''.'' \<in> set ''d.e'' \<and> db_dotted gpt3_after
   \<and> CHR ''.'' \<notin> set (lstrip (create_retry 0 ''p''))
   \<and> calls gpt3_after = 2"
  using GPT3_call_dotted [OF db_dotted_fresh, of create_retry "''p''" "''d.e''" gpt3_after]
    GPT3_call_fresh db_dotted_fresh
  by (simp add: create_retry_def lstrip_def isspace_def gpt3_after_def)

text \<open>
  C3, as amended. When a call of \<open>GPT3.__call__\<close> returns a completion, a second call
  with the same prompt returns the identical completion and sends no request (the
  client is left as it was). The first call sends no request when the prompt was
  stored; otherwise it sends requests until an answer holds a full stop, accepts that
  one answer only, and stores it under the exact prompt before returning it.
\<close>

theorem GPT3_call_twice:
  assumes "GPT3_call create g prompt = Some (c, g1)"
  shows "GPT3_call create g1 prompt = Some (c, g1)
       \<and> db g1 prompt = Some c
       \<and> (db g prompt \<noteq> None \<longrightarrow> g1 = g)
       \<and> (db g prompt = None \<longrightarrow>
            (\<exists>j. calls g \<le> j \<and> calls g1 = Suc j \<and> c = lstrip (create j prompt)
               \<and> CHR ''.'' \<in> set c
               \<and> (\<forall>i. calls g \<le> i \<and> i < j \<longrightarrow>
                      CHR ''.'' \<notin> set (lstrip (create i prompt)))
               \<and> db g1 = (db g)(prompt \<mapsto> c)))"
proof (cases "db g prompt")
  case None
  with assms have "GPT3_live create g prompt = Some (c, g1)"
    by (simp add: GPT3_call_def)
  from GPT3_live_post [OF this] obtain j where j:
    "calls g \<le> j" "calls g1 = Suc j" "c = lstrip (create j prompt)" "CHR ''.'' \<in> set c"
    "\<forall>i. calls g \<le> i \<and> i < j \<longrightarrow> CHR ''.'' \<notin> set (lstrip (create i prompt))"
    "db g1 = (db g)(prompt \<mapsto> c)"
    by auto
  from j(6) have stored: "db g1 prompt = Some c" by simp
  then have "GPT3_call create g1 prompt = Some (c, g1)"
    by (simp add: GPT3_call_def)
  with stored None j show ?thesis by blast
next
  case (Some c')
  with assms have "c' = c" "g1 = g" by (simp_all add: GPT3_call_def)
  with Some assms show ?thesis by simp
qed

theorem GPT3_call_twice_witness:
  "GPT3_call create_retry gpt3_fresh ''p'' = Some (''d.e'', gpt3_after)
   \<and> GPT3_call create_retry gpt3_after ''p'' = Some (''d.e'', gpt3_after)
   \<and> db gpt3_after ''p'' = Some ''d.e''"
  using GPT3_call_twice [OF GPT3_call_fresh] GPT3_call_fresh
  by simp

text \<open>
  C3 as stated fails: with an empty store and a service whose first answer holds no
  full stop, the first call alone sends two requests.
\<close>

theorem GPT3_call_twice_counterexample:
  "GPT3_call create_retry gpt3_fresh ''p'' = Some (''d.e'', gpt3_after)
   \<and> GPT3_call create_retry gpt3_after ''p'' = Some (''d.e'', gpt3_after)
   \<and> calls gpt3_after - calls gpt3_fresh = 2"
  using GPT3_call_fresh GPT3_call_after
  by (simp add: gpt3_after_def gpt3_fresh_def)

section \<open>Properties of the training loop\<close>

lemma push_suffixes_eq:
  "push_suffixes buf xs = buf @ map (\<lambda>i. drop i xs) [0..<length xs]"
proof (induction xs arbitrary: buf)
  case Nil
  show ?case by simp
next
  case (Cons h r)
  have "map (\<lambda>i. drop i (h # r)) [0..<length (h # r)]
        = (h # r) # map (\<lambda>i. drop i r) [0..<length r]"
    by (simp add: upt_conv_Cons map_Suc_upt [symmetric] del: upt_Suc)
  with Cons [of "buf @ [h # r]"] show ?case by simp
qed

lemma slice_last_pos:
  "1 \<le> n \<Longrightarrow> slice_last xs n = drop (length xs - nat n) xs"
  by (auto simp: slice_last_def nat_diff_distrib')

text \<open>
  C4, as amended. With \<open>max_trajectory \<ge> 1\<close>, a training episode of \<open>k\<close> steps that did
  not time out keeps its last \<open>m = min k max_trajectory\<close> steps and appends exactly \<open>m\<close>
  entries to the buffer: the \<open>i\<close>-th appended entry (from 0) is the suffix of length
  \<open>m - i\<close>, so the entries run from the whole truncated trajectory down to its last
  step. A timed-out episode appends nothing.
\<close>

theorem store_episode_suffixes:
  assumes "1 \<le> max_traj"
  shows "store_episode False False max_traj buf traj
           = buf @ map (\<lambda>i. drop (length traj - min (length traj) (nat max_traj) + i) traj)
                       [0..<min (length traj) (nat max_traj)]
       \<and> length (store_episode False False max_traj buf traj)
           = length buf + min (length traj) (nat max_traj)
       \<and> (\<forall>i < min (length traj) (nat max_traj).
             length (store_episode False False max_traj buf traj ! (length buf + i))
               = min (length traj) (nat max_traj) - i)
       \<and> store_episode False True max_traj buf traj = buf"
proof -
  let ?m = "min (length traj) (nat max_traj)"
  have len: "length (drop (length traj - nat max_traj) traj) = ?m" by auto
  have eq: "store_episode False False max_traj buf traj
           = buf @ map (\<lambda>i. drop (length traj - ?m + i) traj) [0..<?m]"
    using assms
    by (auto simp: store_episode_def slice_last_pos push_suffixes_eq len min_def add.commute)
  have "length (store_episode False False max_traj buf traj) = length buf + ?m"
    by (simp add: eq)
  moreover have "\<forall>i < ?m. length (store_episode False False max_traj buf traj ! (length buf + i)) = ?m - i"
    by (auto simp: eq nth_append)
  moreover have "store_episode False True max_traj buf traj = buf"
    by (simp add: store_episode_def)
  ultimately show ?thesis using eq by blast
qed

theorem store_episode_suffixes_witness:
  "(1 :: int) \<le> 2
   \<and> store_episode False False 2 [[9]] [1, 2, 3 :: nat] = [[9], [2, 3], [3]]
   \<and> length (store_episode False False 2 [[9]] [1, 2, 3 :: nat]) = 3
   \<and> store_episode False True 2 [[9]] [1, 2, 3 :: nat] = [[9]]"
  using store_episode_suffixes [of 2 "[[9]]" "[1, 2, 3 :: nat]"]
  by (simp add: upt_conv_Cons)

text \<open>
  C4 as stated fails on the order: the whole trajectory is appended first and the
  shortest suffix last.
\<close>

theorem store_episode_order_counterexample:
  "store_episode False False 5 [] [1, 2 :: nat] = [[1, 2], [2]]"
  by (simp add: store_episode_def slice_last_def)




























section \<open>Properties of the trajectory codec\<close>







section \<open>Properties of \<open>quantify\<close> on rendered trajectories\<close>

lemma pattern_eq_pos: "k < 14 \<Longrightarrow> reward_pattern ! k \<noteq> CHR ''=''"
proof -
  assume k: "k < 14"
  have p: "reward_pattern = ''assert reward '' @ ''== ''" by (simp add: reward_pattern_def)
  have "reward_pattern ! k = ''assert reward '' ! k"
    using k by (simp add: p nth_append del: append.simps)
  moreover have "''assert reward '' ! k \<in> set ''assert reward ''"
    using k by (intro nth_mem) simp
  moreover have "CHR ''='' \<notin> set ''assert reward ''" by simp
  ultimately show ?thesis by metis
qed

lemma pattern_14: "reward_pattern ! 14 = CHR ''=''" "length reward_pattern = 17"
  by (simp_all add: reward_pattern_def)

lemma matches_no_eq:
  assumes "matches s"
  shows "14 < length s \<and> s ! 14 = CHR ''=''"
proof -
  from assms have t: "take 17 s = reward_pattern" and l: "17 < length s"
    by (simp_all add: matches_def)
  have "s ! 14 = take 17 s ! 14" by simp
  with t l show ?thesis by (simp add: pattern_14)
qed

lemma findall_no_eq: "CHR ''='' \<notin> set s \<Longrightarrow> findall s = []"
proof (induction s rule: findall.induct)
  case 1
  show ?case by simp
next
  case (2 c cs)
  have "\<not> matches (c # cs)"
  proof
    assume "matches (c # cs)"
    from matches_no_eq [OF this] have l: "14 < length (c # cs)"
      and e: "(c # cs) ! 14 = CHR ''=''"
      by blast+
    from l have "(c # cs) ! 14 \<in> set (c # cs)" by (rule nth_mem)
    with e 2(3) show False by metis
  qed
  with 2 show ?case by simp
qed

lemma matches_reward:
  "isdigit d \<Longrightarrow> matches (reward_pattern @ d # post)"
  by (simp add: matches_def reward_pattern_def)

lemma findall_reward:
  assumes "CHR ''='' \<notin> set pre" "isdigit d" "CHR ''='' \<notin> set post"
  shows "findall (pre @ reward_pattern @ d # post) = [d]"
  using assms(1)
proof (induction pre)
  case Nil
  have "reward_pattern @ d # post = CHR ''a'' # tl (reward_pattern @ d # post)"
    by (simp add: reward_pattern_def)
  moreover have "drop 18 (reward_pattern @ d # post) = post" "(reward_pattern @ d # post) ! 17 = d"
    by (simp_all add: reward_pattern_def)
  ultimately have "findall (reward_pattern @ d # post) = d # findall post"
    using matches_reward [OF assms(2), of post]
    by (metis findall.simps(2))
  with findall_no_eq [OF assms(3)] show ?case by simp
next
  case (Cons c pre)
  let ?s = "(c # pre) @ reward_pattern @ d # post"
  have "\<not> matches ?s"
  proof
    assume "matches ?s"
    from matches_no_eq [OF this] have e: "?s ! 14 = CHR ''=''" by simp
    show False
    proof (cases "14 < length (c # pre)")
      case True
      then have "?s ! 14 = (c # pre) ! 14" by (simp only: nth_append if_True)
      moreover have "(c # pre) ! 14 \<in> set (c # pre)" using True by (intro nth_mem)
      ultimately show False using e Cons.prems by metis
    next
      case False
      define k where "k = 14 - length (c # pre)"
      have k: "k < 14" using False by (simp add: k_def)
      have "?s ! 14 = (reward_pattern @ d # post) ! k"
        using False by (simp only: nth_append k_def if_False)
      also have "\<dots> = reward_pattern ! k"
        using k by (simp add: nth_append pattern_14)
      finally show False using e pattern_eq_pos [OF k] by simp
    qed
  qed
  then have "findall ?s = findall (pre @ reward_pattern @ d # post)" by simp
  with Cons show ?case by simp
qed


lemma lstrip_keeps:
  assumes "R \<noteq> []" "\<not> isspace (hd R)"
  shows "\<exists>p. lstrip (pre @ R) = p @ R \<and> set p \<subseteq> set pre"
proof (induction pre)
  case Nil
  from assms have "lstrip R = R" by (cases R) (simp_all add: lstrip_def)
  then show ?case by simp
next
  case (Cons c pre)
  show ?case
  proof (cases "isspace c")
    case True
    then have "lstrip ((c # pre) @ R) = lstrip (pre @ R)" by (simp add: lstrip_def)
    with Cons show ?thesis by auto
  next
    case False
    then have "lstrip ((c # pre) @ R) = (c # pre) @ R" by (simp add: lstrip_def)
    then show ?thesis by blast
  qed
qed

lemma to_string_ends_with_reward:
  assumes st: "\<forall>s. CHR ''='' \<notin> set (state_str ev s)"
    and ac: "\<forall>a. CHR ''='' \<notin> set (action_str ev a)"
    and R: "reward_str ev (reward fin) None \<noteq> []"
      "\<not> isspace (hd (reward_str ev (reward fin) None))"
    and fin: "next_state fin = None"
  shows "(\<forall>ts \<in> set interior. next_state ts \<noteq> None) \<Longrightarrow>
     \<exists>pre. to_string ev (interior @ [fin]) = pre @ reward_str ev (reward fin) None
          \<and> CHR ''='' \<notin> set pre"
proof (induction interior)
  case Nil
  let ?pre = "state_str ev (state fin) @ '' '' @ action_str ev (action fin) @ '' ''"
  have "lstrip (reward_str ev (reward fin) None) = reward_str ev (reward fin) None"
    using R by (cases "reward_str ev (reward fin) None") (simp_all add: lstrip_def)
  then have "to_string ev ([] @ [fin]) = ?pre @ reward_str ev (reward fin) None"
    using fin by (simp add: Let_def Prompt_to_string_def Prompt_make_def)
  moreover have "CHR ''='' \<notin> set ?pre" using st ac by simp
  ultimately show ?case by blast
next
  case (Cons ts interior)
  then obtain pre where pre:
    "to_string ev (interior @ [fin]) = pre @ reward_str ev (reward fin) None"
    "CHR ''='' \<notin> set pre"
    by auto
  from lstrip_keeps [OF R, of pre] obtain p where p:
    "lstrip (pre @ reward_str ev (reward fin) None) = p @ reward_str ev (reward fin) None"
    "set p \<subseteq> set pre"
    by blast
  let ?pre = "state_str ev (state ts) @ '' '' @ action_str ev (action ts) @ '' '' @ p"
  from Cons.prems obtain y where "next_state ts = Some y" by auto
  then have "to_string ev ((ts # interior) @ [fin]) = ?pre @ reward_str ev (reward fin) None"
    using pre(1) p(1) by (simp add: Let_def Prompt_to_string_def Prompt_make_def)
  moreover have "CHR ''='' \<notin> set ?pre" using st ac pre(2) p(2) by auto
  ultimately show ?case by blast
qed

lemma pattern_hd: "reward_pattern @ d # post \<noteq> []" "\<not> isspace (hd (reward_pattern @ d # post))"
  by (simp_all add: reward_pattern_def isspace_def)

text \<open>
  C8, as amended. \<open>quantify\<close> takes no \<open>gamma\<close>: it adds the digits that follow the
  occurrences of \<open>assert reward == \<close>. For a trajectory whose last step alone is
  terminal, with a reward \<open>r\<close> that is a single digit, in an environment whose state and
  action renderings hold no \<open>=\<close> and which renders the terminal reward as
  \<open>assert reward == \<close>, the digit of \<open>r\<close> and a rest without \<open>=\<close>, quantifying the
  rendering gives \<open>r\<close>.
\<close>

theorem quantify_to_string:
  assumes "\<forall>s. CHR ''='' \<notin> set (state_str ev s)"
    and "\<forall>a. CHR ''='' \<notin> set (action_str ev a)"
    and "reward_str ev r None = reward_pattern @ d # post"
    and "isdigit d" and "CHR ''='' \<notin> set post" and "r = float_of_digit d"
    and "\<forall>ts \<in> set interior. next_state ts \<noteq> None"
    and "next_state fin = None" and "reward fin = r"
  shows "Env_quantify (to_string ev (interior @ [fin])) = r"
proof -
  have R: "reward_str ev (reward fin) None \<noteq> []"
    "\<not> isspace (hd (reward_str ev (reward fin) None))"
    using assms(3,9) pattern_hd [of d post] by simp_all
  from to_string_ends_with_reward [OF assms(1,2) R assms(8) assms(7)]
  obtain pre where pre: "to_string ev (interior @ [fin]) = pre @ reward_pattern @ d # post"
    "CHR ''='' \<notin> set pre"
    using assms(3,9) by auto
  from findall_reward [OF pre(2) assms(4,5)] pre(1)
  have "findall (to_string ev (interior @ [fin])) = [d]" by simp
  with assms(6) show ?thesis by (simp add: Env_quantify_def)
qed

theorem quantify_to_string_witness:
  "(\<forall>s. CHR ''='' \<notin> set (state_str env_assert s))
   \<and> (\<forall>a. CHR ''='' \<notin> set (action_str env_assert a))
   \<and> reward_str env_assert 1 None = reward_pattern @ CHR ''1'' # ''.0''
   \<and> isdigit CHR ''1'' \<and> (1 :: real) = float_of_digit CHR ''1''
   \<and> next_state step_on \<noteq> None \<and> next_state step_win = None \<and> reward step_win = 1
   \<and> Env_quantify (to_string env_assert [step_on, step_win]) = 1"
proof -
  have h1: "\<forall>s. CHR ''='' \<notin> set (state_str env_assert s)"
    and h2: "\<forall>a. CHR ''='' \<notin> set (action_str env_assert a)"
    and h3: "reward_str env_assert 1 None = reward_pattern @ CHR ''1'' # ''.0''"
    by (simp_all add: env_assert_def reward_pattern_def)
  have h4: "isdigit CHR ''1''" and h5: "CHR ''='' \<notin> set ''.0''"
    and h6: "(1 :: real) = float_of_digit CHR ''1''"
    by (simp_all add: isdigit_def float_of_digit_def)
  have h7: "\<forall>ts \<in> set [step_on]. next_state ts \<noteq> None"
    and h8: "next_state step_win = None" and h9: "reward step_win = 1"
    by (simp_all add: step_on_def step_win_def)
  from quantify_to_string [OF h1 h2 h3 h4 h5 h6 h7 h8 h9]
  have "Env_quantify (to_string env_assert [step_on, step_win]) = 1" by simp
  with h1 h2 h3 h4 h6 h7 h8 h9 show ?thesis by simp
qed

lemma to_string_half:
  "to_string env_assert [step_on, step_half] = ''s a s a assert reward == 0.5''"
  by (simp add: env_assert_def step_on_def step_half_def Prompt_to_string_def Prompt_make_def
      lstrip_def isspace_def)

lemma Env_quantify_half: "Env_quantify ''s a s a assert reward == 0.5'' = 0"
  by (simp add: Env_quantify_def matches_def reward_pattern_def isdigit_def float_of_digit_def)

text \<open>
  Whatever the renderers, the result of \<open>quantify\<close> is a natural number: no rendering
  gives back a reward of one half, nor a negative one.
\<close>

lemma Env_quantify_nat: "Env_quantify s \<in> \<nat>"
proof -
  have "sum_list (map float_of_digit xs) = real (sum_list (map (\<lambda>c. of_char c - 48) xs))" for xs
    by (induction xs) (simp_all add: float_of_digit_def)
  then show ?thesis by (simp add: Env_quantify_def)
qed

text \<open>
  C8 as stated fails: a trajectory whose single terminal reward is one half, rendered as
  Python prints the float, is quantified as 0, since the pattern takes one digit.
\<close>

theorem quantify_half_counterexample:
  "next_state step_on \<noteq> None \<and> next_state step_half = None \<and> reward step_half = 1 / 2
   \<and> Env_quantify (to_string env_assert [step_on, step_half]) = 0"
  using to_string_half Env_quantify_half
  by (simp add: step_on_def step_half_def)

section \<open>Properties of the agents\<close>

lemma unpack1_split: "unpack1 (split sep s) = Inr (takeWhile (\<lambda>c. c \<noteq> sep) s)"
proof (induction s)
  case Nil
  show ?case by simp
next
  case (Cons c cs)
  then show ?case by (cases "split sep cs") auto
qed

lemma index_Inr:
  "index xs x = Inr i \<Longrightarrow> i < length xs \<and> xs ! i = x \<and> (\<forall>j < i. xs ! j \<noteq> x)"
proof (induction xs arbitrary: i)
  case Nil
  then show ?case by simp
next
  case (Cons y ys)
  show ?case
  proof (cases "y = x")
    case True
    with Cons.prems show ?thesis by simp
  next
    case False
    with Cons.prems obtain i' where i': "index ys x = Inr i'" "i = Suc i'"
      by (auto split: sum.splits)
    from Cons.IH [OF i'(1)] False i'(2) show ?thesis
      by (auto simp: nth_Cons split: nat.splits)
  qed
qed

lemma index_Inl: "(\<exists>e. index xs x = Inl e) \<longleftrightarrow> x \<notin> set xs"
  by (induction xs) (auto split: sum.splits)

lemma Pi_act_loop_post:
  assumes "Pi_act_loop ACTIONS perm gpt3 m s k = Some r"
  shows "\<exists>a j. r = Inr (a, Suc j) \<and> k \<le> j \<and> index ACTIONS (candidate perm gpt3 m s j) = Inr a
           \<and> (\<forall>i. k \<le> i \<and> i < j \<longrightarrow> candidate perm gpt3 m s i \<notin> set ACTIONS)"
proof -
  define P where "P = (\<lambda>(ACTIONS :: string list) (perm :: nat \<Rightarrow> nat \<Rightarrow> nat list)
      (gpt3 :: nat \<Rightarrow> string \<Rightarrow> string) (m :: Model) (s :: string) (k :: nat)
      (r :: error + nat \<times> nat).
     \<exists>a j. r = Inr (a, Suc j) \<and> k \<le> j \<and> index ACTIONS (candidate perm gpt3 m s j) = Inr a
           \<and> (\<forall>i. k \<le> i \<and> i < j \<longrightarrow> candidate perm gpt3 m s i \<notin> set ACTIONS))"
  have "P ACTIONS perm gpt3 m s k r"
  proof (rule Pi_act_loop.raw_induct [where P = P, OF _ assms])
    fix loop and ACTIONS :: "string list" and perm :: "nat \<Rightarrow> nat \<Rightarrow> nat list"
      and gpt3 :: "nat \<Rightarrow> string \<Rightarrow> string" and m :: Model and s :: string and k :: nat
      and r :: "error + nat \<times> nat"
    assume IH: "\<And>ACTIONS perm gpt3 m s k r. loop ACTIONS perm gpt3 m s k = Some r
                  \<Longrightarrow> P ACTIONS perm gpt3 m s k r"
      and body: "(let trajectories = sample_best perm k m;
          prompt = join newline (trajectories @ [s]);
          completion = lstrip (gpt3 k prompt)
      in case unpack1 (split CHR ''.'' completion) of
           Inl e \<Rightarrow> Some (Inl e)
         | Inr maybe_action \<Rightarrow>
             (case index ACTIONS (maybe_action @ ''.'') of
                Inr a \<Rightarrow> Some (Inr (a, Suc k))
              | Inl e \<Rightarrow> loop ACTIONS perm gpt3 m s (Suc k))) = Some r"
    show "P ACTIONS perm gpt3 m s k r"
    proof (cases "index ACTIONS (candidate perm gpt3 m s k)")
      case (Inr a)
      with body have "r = Inr (a, Suc k)"
        by (simp add: Let_def unpack1_split candidate_def)
      with Inr show ?thesis
        unfolding P_def by (rule_tac x = a in exI, rule_tac x = k in exI) auto
    next
      case (Inl e)
      with body have "loop ACTIONS perm gpt3 m s (Suc k) = Some r"
        by (simp add: Let_def unpack1_split candidate_def)
      from IH [OF this] obtain a j where aj: "r = Inr (a, Suc j)" "Suc k \<le> j"
        "index ACTIONS (candidate perm gpt3 m s j) = Inr a"
        "\<forall>i. Suc k \<le> i \<and> i < j \<longrightarrow> candidate perm gpt3 m s i \<notin> set ACTIONS"
        unfolding P_def by blast
      from Inl index_Inl [of ACTIONS "candidate perm gpt3 m s k"]
      have nk: "candidate perm gpt3 m s k \<notin> set ACTIONS" by blast
      have "\<forall>i. k \<le> i \<and> i < j \<longrightarrow> candidate perm gpt3 m s i \<notin> set ACTIONS"
      proof (intro allI impI)
        fix i assume i: "k \<le> i \<and> i < j"
        show "candidate perm gpt3 m s i \<notin> set ACTIONS"
        proof (cases "i = k")
          case True
          with nk show ?thesis by simp
        next
          case False
          with i have "Suc k \<le> i \<and> i < j" by simp
          with aj(4) show ?thesis by blast
        qed
      qed
      with aj show ?thesis
        unfolding P_def by (rule_tac x = a in exI, rule_tac x = j in exI) simp
    qed
  qed
  then show ?thesis by (simp add: P_def)
qed

lemma Pi_act_loop_returns:
  "candidate perm gpt3 m s j \<in> set ACTIONS \<Longrightarrow> k \<le> j \<Longrightarrow>
     \<exists>r. Pi_act_loop ACTIONS perm gpt3 m s k = Some r"
proof (induction "j - k" arbitrary: k)
  case 0
  then have "k = j" by simp
  with 0(2) index_Inl [of ACTIONS "candidate perm gpt3 m s k"]
  obtain a where "index ACTIONS (candidate perm gpt3 m s k) = Inr a"
    by (cases "index ACTIONS (candidate perm gpt3 m s k)") auto
  then show ?case
    by (subst Pi_act_loop.simps) (simp add: Let_def unpack1_split candidate_def)
next
  case (Suc d)
  show ?case
  proof (cases "index ACTIONS (candidate perm gpt3 m s k)")
    case (Inr a)
    then show ?thesis
      by (subst Pi_act_loop.simps) (simp add: Let_def unpack1_split candidate_def)
  next
    case (Inl e)
    from Suc(2) have "d = j - Suc k" "Suc k \<le> j" by simp_all
    with Suc(1) [of "Suc k"] Suc(3)
    have "\<exists>r. Pi_act_loop ACTIONS perm gpt3 m s (Suc k) = Some r" by blast
    with Inl show ?thesis
      by (subst Pi_act_loop.simps) (simp add: Let_def unpack1_split candidate_def)
  qed
qed

lemma Pi_act_second:
  "Pi_act actions_ex perm_id gpt3_second pi_ex 0 0 = Some (Inr (1, 2))"
  by (simp add: Pi_act_def Pi_act_loop.simps Let_def actions_ex_def gpt3_second_def lstrip_def
      isspace_def)

text \<open>
  C1. Whenever \<open>Pi._act\<close> returns, it returns an index \<open>a\<close> below the number of canonical
  action strings, \<open>ACTIONS ! a\<close> is the candidate of the last call made, and the candidate
  of every earlier call matched no action string: each of them was followed by a new
  sample and a new call. The loop returns as soon as some call's candidate is an action
  string.
\<close>

theorem Pi_act_valid:
  "(Pi_act ACTIONS perm gpt3 m st k = Some r \<longrightarrow>
      (\<exists>a j. r = Inr (a, Suc j) \<and> k \<le> j \<and> a < length ACTIONS
         \<and> ACTIONS ! a = candidate perm gpt3 m (state_str (env m) st) j
         \<and> (\<forall>i. k \<le> i \<and> i < j \<longrightarrow>
                candidate perm gpt3 m (state_str (env m) st) i \<notin> set ACTIONS)))
   \<and> ((\<exists>j. k \<le> j \<and> candidate perm gpt3 m (state_str (env m) st) j \<in> set ACTIONS) \<longrightarrow>
        (\<exists>r'. Pi_act ACTIONS perm gpt3 m st k = Some r'))"
proof (intro conjI impI)
  assume "Pi_act ACTIONS perm gpt3 m st k = Some r"
  then have "Pi_act_loop ACTIONS perm gpt3 m (state_str (env m) st) k = Some r"
    by (simp add: Pi_act_def)
  from Pi_act_loop_post [OF this] obtain a j where aj: "r = Inr (a, Suc j)" "k \<le> j"
    "index ACTIONS (candidate perm gpt3 m (state_str (env m) st) j) = Inr a"
    "\<forall>i. k \<le> i \<and> i < j \<longrightarrow> candidate perm gpt3 m (state_str (env m) st) i \<notin> set ACTIONS"
    by blast
  from index_Inr [OF aj(3)] have "a < length ACTIONS"
    "ACTIONS ! a = candidate perm gpt3 m (state_str (env m) st) j"
    by simp_all
  with aj show "\<exists>a j. r = Inr (a, Suc j) \<and> k \<le> j \<and> a < length ACTIONS
         \<and> ACTIONS ! a = candidate perm gpt3 m (state_str (env m) st) j
         \<and> (\<forall>i. k \<le> i \<and> i < j \<longrightarrow>
                candidate perm gpt3 m (state_str (env m) st) i \<notin> set ACTIONS)"
    by blast
next
  assume "\<exists>j. k \<le> j \<and> candidate perm gpt3 m (state_str (env m) st) j \<in> set ACTIONS"
  then obtain j where "candidate perm gpt3 m (state_str (env m) st) j \<in> set ACTIONS" "k \<le> j"
    by blast
  then have "\<exists>r'. Pi_act_loop ACTIONS perm gpt3 m (state_str (env m) st) k = Some r'"
    by (rule Pi_act_loop_returns)
  then show "\<exists>r'. Pi_act ACTIONS perm gpt3 m st k = Some r'"
    by (simp add: Pi_act_def)
qed

theorem Pi_act_valid_witness:
  "Pi_act actions_ex perm_id gpt3_second pi_ex 0 0 = Some (Inr (1, 2))
   \<and> (1 :: nat) < length actions_ex
   \<and> actions_ex ! 1 = candidate perm_id gpt3_second pi_ex (state_str (env pi_ex) 0) 1
   \<and> candidate perm_id gpt3_second pi_ex (state_str (env pi_ex) 0) 0 \<notin> set actions_ex"
proof -
  from Pi_act_valid [of actions_ex perm_id gpt3_second pi_ex 0 0 "Inr (1, 2)"] Pi_act_second
  obtain a j where aj: "Inr (1, 2) = (Inr (a, Suc j) :: error + nat \<times> nat)"
    "a < length actions_ex"
    "actions_ex ! a = candidate perm_id gpt3_second pi_ex (state_str (env pi_ex) 0) j"
    "\<forall>i. 0 \<le> i \<and> i < j \<longrightarrow>
       candidate perm_id gpt3_second pi_ex (state_str (env pi_ex) 0) i \<notin> set actions_ex"
    by blast
  from aj(1) have "a = 1" "j = 1" by simp_all
  with aj Pi_act_second show ?thesis by simp
qed











lemma Q_value_rollout:
  "Q_value rewards_ex perm_id gpt3_rollout q_half 0 1 1 = Some (Inr (''s1. a1. far.'', 3))"
  by (simp add: Q_value_def Q_value_loop.simps Let_def rewards_ex_def gpt3_rollout_def q_half_def
      reformat_def lstrip_def isspace_def)

























end
